theory Spec2Isabelle
  imports Complex_Main
begin

section \<open>Python values and strings\<close>

text \<open>
  A Python \<open>str\<close> is modelled as a \<open>string\<close>: a list of 8-bit characters, read as the
  Unicode code points 0 to 255 (the Latin-1 range). \<open>len\<close> is \<open>length\<close>. The three
  character tables below are those of CPython on that range; code points from 256 on are
  outside the model.
\<close>

definition isspace :: "char \<Rightarrow> bool" where
  \<comment> \<open>\<open>str.isspace\<close>, the class \<open>\s\<close> of \<open>re\<close> on a \<open>str\<close> pattern, and what \<open>strip\<close> and
      \<open>split\<close> remove: tab to carriage return, the separators 28 to 31, space, NEL, NBSP.\<close>
  "isspace c =
     (let n = (of_char c :: nat)
      in (9 \<le> n \<and> n \<le> 13) \<or> (28 \<le> n \<and> n \<le> 32) \<or> n = 133 \<or> n = 160)"

definition isalpha :: "char \<Rightarrow> bool" where
  \<comment> \<open>\<open>str.isalpha\<close>: the letters of ASCII and of Latin-1.\<close>
  "isalpha c =
     (let n = (of_char c :: nat)
      in (65 \<le> n \<and> n \<le> 90) \<or> (97 \<le> n \<and> n \<le> 122) \<or> n = 170 \<or> n = 181 \<or> n = 186
         \<or> (192 \<le> n \<and> n \<le> 214) \<or> (216 \<le> n \<and> n \<le> 246) \<or> (248 \<le> n \<and> n \<le> 255))"

definition lower_char :: "char \<Rightarrow> char" where
  "lower_char c =
     (let n = (of_char c :: nat)
      in if (65 \<le> n \<and> n \<le> 90) \<or> (192 \<le> n \<and> n \<le> 214) \<or> (216 \<le> n \<and> n \<le> 222)
         then char_of (n + 32) else c)"

definition lower :: "string \<Rightarrow> string" where
  \<comment> \<open>\<open>str.lower()\<close>\<close>
  "lower s = map lower_char s"

definition lstrip :: "string \<Rightarrow> string" where
  "lstrip s = dropWhile isspace s"

definition rstrip :: "string \<Rightarrow> string" where
  "rstrip s = rev (dropWhile isspace (rev s))"

definition strip :: "string \<Rightarrow> string" where
  \<comment> \<open>\<open>str.strip()\<close> with no argument\<close>
  "strip s = rstrip (lstrip s)"

function collapse_ws :: "string \<Rightarrow> string" where
  \<comment> \<open>\<open>re.sub(r'\s+', ' ', s)\<close>: every maximal run of whitespace becomes one space\<close>
  "collapse_ws [] = []"
| "collapse_ws (c # cs) =
     (if isspace c then CHR '' '' # collapse_ws (dropWhile isspace cs)
      else c # collapse_ws cs)"
  by pat_completeness auto
termination
  by (relation "measure length") (auto simp: length_dropWhile_le less_Suc_eq_le)

function split_ws :: "string \<Rightarrow> string list" where
  \<comment> \<open>\<open>str.split()\<close> with no argument: the maximal runs of non-whitespace\<close>
  "split_ws s =
     (case dropWhile isspace s of
        [] \<Rightarrow> []
      | c # cs \<Rightarrow> (c # takeWhile (\<lambda>x. \<not> isspace x) cs)
                   # split_ws (dropWhile (\<lambda>x. \<not> isspace x) cs))"
  by pat_completeness auto
termination
proof (relation "measure length")
  fix s :: string and c cs
  assume "dropWhile isspace s = c # cs"
  then have "Suc (length cs) \<le> length s"
    by (metis length_Cons length_dropWhile_le)
  moreover have "length (dropWhile (\<lambda>x. \<not> isspace x) cs) \<le> length cs"
    by (rule length_dropWhile_le)
  ultimately show "(dropWhile (\<lambda>x. \<not> isspace x) cs, s) \<in> measure length"
    by simp
qed simp

declare split_ws.simps [simp del]

fun search_x5 :: "string \<Rightarrow> bool" where
  \<comment> \<open>\<open>re.search(r'X{5,}', s)\<close> is not None: some position starts five letters X\<close>
  "search_x5 [] = False"
| "search_x5 (c # cs) = (take 5 (c # cs) = ''XXXXX'' \<or> search_x5 cs)"

fun str_contains :: "string \<Rightarrow> string \<Rightarrow> bool" where
  \<comment> \<open>\<open>needle in haystack\<close> on two \<open>str\<close>: the needle starts at some position\<close>
  "str_contains needle [] = (needle = [])"
| "str_contains needle (c # cs) =
     (take (length needle) (c # cs) = needle \<or> str_contains needle cs)"

datatype exn = ValueError | KeyError | IndexError | ZeroDivisionError | ReadError string

datatype cell =
    Missing          \<comment> \<open>\<open>None\<close> or NaN: what \<open>pd.isna\<close> answers True on\<close>
  | Text string      \<comment> \<open>a \<open>str\<close>\<close>
  | Number string    \<comment> \<open>any other scalar (int, float, bool), carried as its \<open>str()\<close> text\<close>

datatype pyval =
    Scalar cell
  | PyList "pyval list"
  | PyTuple "pyval list"

fun is_seq :: "pyval \<Rightarrow> bool" where
  "is_seq (Scalar c) = False"
| "is_seq (PyList xs) = True"
| "is_seq (PyTuple xs) = True"

fun items :: "pyval \<Rightarrow> pyval list" where
  "items (Scalar c) = []"
| "items (PyList xs) = xs"
| "items (PyTuple xs) = xs"

function np_entries :: "pyval list \<Rightarrow> pyval list" where
  \<comment> \<open>the entries, in order, of \<open>np.asarray(ys, dtype=object)\<close>: NumPy adds a dimension
      as long as all values of a level are lists or tuples of one length, and keeps the
      values of the first level where they are not as its entries. A \<open>str\<close> is a scalar
      here.\<close>
  "np_entries ys =
     (if ys \<noteq> [] \<and> list_all is_seq ys
         \<and> list_all (\<lambda>y. length (items y) = length (items (hd ys))) ys
      then np_entries (concat (map items ys))
      else ys)"
  by pat_completeness auto
termination
proof (relation "measure (size_list size)")
  fix ys :: "pyval list"
  assume a: "ys \<noteq> [] \<and> list_all is_seq ys
      \<and> list_all (\<lambda>y. length (items y) = length (items (hd ys))) ys"
  have i: "size_list size (items y) \<le> size y" for y :: pyval
    by (cases y) simp_all
  have "size_list size (concat (map items zs)) + length zs \<le> size_list size zs"
    for zs :: "pyval list"
  proof (induction zs)
    case Nil
    show ?case by simp
  next
    case (Cons z zs)
    then show ?case using i [of z] by simp
  qed
  from this [of ys] a have "size_list size (concat (map items ys)) < size_list size ys"
    by (cases ys) simp_all
  then show "(concat (map items ys), ys) \<in> measure (size_list size)"
    by simp
qed simp

declare np_entries.simps [simp del]

datatype isna_result = IsnaBool bool | IsnaArray "bool list"

definition cell_isna :: "cell \<Rightarrow> bool" where
  "cell_isna c = (case c of Missing \<Rightarrow> True | _ \<Rightarrow> False)"

definition entry_isna :: "pyval \<Rightarrow> bool" where
  \<comment> \<open>the null check on one entry of an object array\<close>
  "entry_isna v = (case v of Scalar c \<Rightarrow> cell_isna c | _ \<Rightarrow> False)"

definition pd_isna :: "pyval \<Rightarrow> isna_result" where
  \<comment> \<open>\<open>pd.isna\<close>, a function of pandas: a bool on a scalar; on a list, the array of the
      null checks of the entries of \<open>np.asarray(obj, dtype=object)\<close>; False on any other
      object such as a tuple.\<close>
  "pd_isna v =
     (case v of
        Scalar c \<Rightarrow> IsnaBool (cell_isna c)
      | PyList xs \<Rightarrow> IsnaArray (map entry_isna (np_entries xs))
      | PyTuple xs \<Rightarrow> IsnaBool False)"

definition truth :: "isna_result \<Rightarrow> exn + bool" where
  \<comment> \<open>The truth value an \<open>if\<close> or an \<open>or\<close> takes: that of the bool; that of the only
      element of an array of size one; ValueError ("the truth value of an array with more
      than one element is ambiguous") on an array of two or more entries. An array with
      no entry raises too from NumPy 2.2 on (before, it was false, with a deprecation
      warning); no statement below depends on that case.\<close>
  "truth r =
     (case r of
        IsnaBool b \<Rightarrow> Inr b
      | IsnaArray [b] \<Rightarrow> Inr b
      | IsnaArray _ \<Rightarrow> Inl ValueError)"

section \<open>The quality classifier\<close>

definition common_english_words :: "string list" where
  "common_english_words =
     [''the'', ''and'', ''for'', ''you'', ''are'', ''your'', ''will'', ''have'', ''from'',
      ''this'', ''with'', ''that'', ''send'', ''please'', ''money'', ''bank'', ''account'',
      ''contact'', ''code'', ''number'', ''phone'', ''call'', ''cash'', ''credit'', ''payment'',
      ''free'', ''claim'', ''prize'', ''win'', ''won'', ''congratulations'', ''urgent'']"

definition clean :: "string \<Rightarrow> string" where
  \<comment> \<open>line 18: \<open>re.sub(r'\s+', ' ', str(text)).strip()\<close>\<close>
  "clean s = strip (collapse_ws s)"

definition english_word_count :: "string \<Rightarrow> nat" where
  \<comment> \<open>line 49, on \<open>lower_text\<close>\<close>
  "english_word_count lower_text =
     length (filter (\<lambda>word. str_contains ('' '' @ word @ '' '') ('' '' @ lower_text @ '' ''))
               common_english_words)"

definition is_quality_english :: "pyval \<Rightarrow> int \<Rightarrow> rat \<Rightarrow> int \<Rightarrow> exn + bool" where
  \<comment> \<open>\<open>alpha_chars / len(cleaned_text)\<close> is a float in the source and an exact fraction
      here; against the default 0.5 the two comparisons agree on every text shorter than
      \<open>2 ^ 53\<close> characters.\<close>
  "is_quality_english text min_words min_alpha_ratio min_length =
     (case truth (pd_isna text) of
        Inl e \<Rightarrow> Inl e
      | Inr na \<Rightarrow>
          if na then Inr False
          else (case text of
              Scalar (Text s) \<Rightarrow>
                if strip s = [] then Inr False
                else
                  let cleaned_text = clean s in
                  if int (length cleaned_text) < min_length then Inr False
                  else if search_x5 cleaned_text then Inr False
                  else
                    let words = split_ws cleaned_text in
                    if int (length words) < min_words then Inr False
                    else
                      let alpha_chars = length (filter isalpha cleaned_text) in
                      if length cleaned_text > 0
                         \<and> of_nat alpha_chars / of_nat (length cleaned_text) < min_alpha_ratio
                      then Inr False
                      else
                        let lower_text = lower cleaned_text;
                            count = english_word_count lower_text
                        in if length cleaned_text > 50 then Inr (count \<ge> 2)
                           else Inr (count \<ge> 1)
            | _ \<Rightarrow> Inr False))"

definition is_quality_english_default :: "pyval \<Rightarrow> exn + bool" where
  \<comment> \<open>the call with the defaults \<open>min_words=4, min_alpha_ratio=0.5, min_length=15\<close>\<close>
  "is_quality_english_default text = is_quality_english text 4 (1 / 2) 15"

section \<open>The row reducer\<close>

text \<open>
  A loaded table has its column names in source order and its rows; a row gives every
  column a cell. \<open>pd.read_csv\<close> itself is a parameter: one parse attempt per strategy,
  each a table or the exception it raised.
\<close>

record table =
  columns :: "string list"
  rows :: "(string \<Rightarrow> cell) list"

datatype strategy = DefaultParse | Latin1Parse | LenientParse

definition load_source ::
  "(strategy \<Rightarrow> 'src \<Rightarrow> exn + table) \<Rightarrow> 'src \<Rightarrow> strategy list \<times> (exn + table)" where
  \<comment> \<open>lines 62 to 73; the first component lists the attempts made, in order\<close>
  "load_source read_csv input_file =
     (case read_csv DefaultParse input_file of
        Inr df \<Rightarrow> ([DefaultParse], Inr df)
      | Inl e \<Rightarrow>
          (case read_csv Latin1Parse input_file of
             Inr df \<Rightarrow> ([DefaultParse, Latin1Parse], Inr df)
           | Inl e' \<Rightarrow>
               ([DefaultParse, Latin1Parse, LenientParse], read_csv LenientParse input_file)))"

definition select_columns :: "table \<Rightarrow> string list option \<Rightarrow> string list" where
  \<comment> \<open>lines 79 and 80\<close>
  "select_columns df text_columns =
     (case text_columns of
        None \<Rightarrow> columns df
      | Some cols \<Rightarrow>
          if \<not> list_all (\<lambda>col. col \<in> set (columns df)) cols then columns df else cols)"

definition row_get :: "table \<Rightarrow> (string \<Rightarrow> cell) \<Rightarrow> string \<Rightarrow> exn + cell" where
  \<comment> \<open>\<open>row[col]\<close>: KeyError on a name that is not a column\<close>
  "row_get df row col = (if col \<in> set (columns df) then Inr (row col) else Inl KeyError)"

definition coerce_cell :: "cell \<Rightarrow> string" where
  \<comment> \<open>line 91: \<open>str(row[col]) if not pd.isna(row[col]) else ""\<close>\<close>
  "coerce_cell v =
     (if \<not> cell_isna v then (case v of Text s \<Rightarrow> s | Number r \<Rightarrow> r | Missing \<Rightarrow> [])
      else [])"

definition sentinels :: "string list" where
  "sentinels = ['''', ''nan'', ''None'', ''0'', ''NaN'']"

fun scan_row ::
  "table \<Rightarrow> (string \<Rightarrow> cell) \<Rightarrow> string list \<Rightarrow> string list \<Rightarrow> exn + string list" where
  \<comment> \<open>lines 90 to 99, the last argument being \<open>row_texts\<close> so far\<close>
  "scan_row df row [] row_texts = Inr row_texts"
| "scan_row df row (col # cols) row_texts =
     (case row_get df row col of
        Inl e \<Rightarrow> Inl e
      | Inr v \<Rightarrow>
          let cell_text = coerce_cell v in
          if strip cell_text \<in> set sentinels then scan_row df row cols row_texts
          else (case is_quality_english_default (Scalar (Text cell_text)) of
              Inl e \<Rightarrow> Inl e
            | Inr q \<Rightarrow>
                if q then scan_row df row cols (row_texts @ [cell_text])
                else scan_row df row cols row_texts))"

definition sorted_by_len_desc :: "string list \<Rightarrow> string list" where
  \<comment> \<open>\<open>sorted(row_texts, key=len, reverse=True)\<close>: stable, so texts of one length keep
      their order\<close>
  "sorted_by_len_desc row_texts = sort_key (\<lambda>t. - int (length t)) row_texts"

definition longest_text :: "string list \<Rightarrow> exn + string" where
  \<comment> \<open>line 104: element \<open>[0]\<close> of the sorted list\<close>
  "longest_text row_texts =
     (case sorted_by_len_desc row_texts of [] \<Rightarrow> Inl IndexError | t # _ \<Rightarrow> Inr t)"

fun scan_rows ::
  "table \<Rightarrow> string list \<Rightarrow> (string \<Rightarrow> cell) list \<Rightarrow> string list \<Rightarrow> exn + string list" where
  \<comment> \<open>lines 86 to 105, the last argument being \<open>all_texts\<close> so far\<close>
  "scan_rows df text_columns [] all_texts = Inr all_texts"
| "scan_rows df text_columns (row # rest) all_texts =
     (case scan_row df row text_columns [] of
        Inl e \<Rightarrow> Inl e
      | Inr row_texts \<Rightarrow>
          if row_texts \<noteq> [] then
            (case longest_text row_texts of
               Inl e \<Rightarrow> Inl e
             | Inr t \<Rightarrow> scan_rows df text_columns rest (all_texts @ [t]))
          else scan_rows df text_columns rest all_texts)"

fun drop_duplicates_seen :: "'a list \<Rightarrow> 'a list \<Rightarrow> 'a list" where
  "drop_duplicates_seen seen [] = []"
| "drop_duplicates_seen seen (x # xs) =
     (if x \<in> set seen then drop_duplicates_seen seen xs
      else x # drop_duplicates_seen (x # seen) xs)"

definition drop_duplicates :: "'a list \<Rightarrow> 'a list" where
  \<comment> \<open>\<open>DataFrame.drop_duplicates\<close> with its default \<open>keep='first'\<close>, on one column\<close>
  "drop_duplicates xs = drop_duplicates_seen [] xs"

definition true_div :: "nat \<Rightarrow> nat \<Rightarrow> exn + rat" where
  \<comment> \<open>\<open>a / b\<close> on two \<open>len\<close> results\<close>
  "true_div a b = (if b = 0 then Inl ZeroDivisionError else Inr (of_nat a / of_nat b))"

record run =
  saved :: "string list option"
  returned :: "exn + string list"

definition reduce_table :: "table \<Rightarrow> string list option \<Rightarrow> run" where
  \<comment> \<open>lines 75 to 120, on the loaded table. \<open>saved\<close> is the column written to
      \<open>output_file\<close>, once line 114 has run (the write is taken to succeed); \<open>returned\<close>
      is the column returned, or the exception raised.\<close>
  "reduce_table df text_columns =
     (let total_rows = length (rows df);
          cols = select_columns df text_columns
      in case scan_rows df cols (rows df) [] of
           Inl e \<Rightarrow> \<lparr>saved = None, returned = Inl e\<rparr>
         | Inr all_texts \<Rightarrow>
             let result_df = drop_duplicates all_texts in
             (case true_div (length result_df) total_rows of
                Inl e \<Rightarrow> \<lparr>saved = Some result_df, returned = Inl e\<rparr>
              | Inr fraction \<Rightarrow> \<lparr>saved = Some result_df, returned = Inr result_df\<rparr>))"

definition extract_quality_english_text ::
  "(strategy \<Rightarrow> 'src \<Rightarrow> exn + table) \<Rightarrow> 'src \<Rightarrow> string list option \<Rightarrow> run" where
  "extract_quality_english_text read_csv input_file text_columns =
     (case snd (load_source read_csv input_file) of
        Inl e \<Rightarrow> \<lparr>saved = None, returned = Inl e\<rparr>
      | Inr df \<Rightarrow> reduce_table df text_columns)"

section \<open>Notions of the specification\<close>

definition whole_word_match :: "string \<Rightarrow> string \<Rightarrow> bool" where
  \<comment> \<open>the word, between two spaces, occurs in the lower-cased text padded with a space
      on each side\<close>
  "whole_word_match word t \<longleftrightarrow>
     (\<exists>pre post. '' '' @ lower t @ '' '' = pre @ '' '' @ word @ '' '' @ post)"

definition match_count :: "string \<Rightarrow> nat" where
  "match_count t = card {word \<in> set common_english_words. whole_word_match word t}"

definition survives_checks :: "string \<Rightarrow> int \<Rightarrow> rat \<Rightarrow> int \<Rightarrow> bool" where
  \<comment> \<open>the text is not blank and passes the length, placeholder, word-count and
      alphabetic-ratio checks\<close>
  "survives_checks s min_words min_alpha_ratio min_length \<longleftrightarrow>
     strip s \<noteq> []
     \<and> min_length \<le> int (length (clean s))
     \<and> \<not> search_x5 (clean s)
     \<and> min_words \<le> int (length (split_ws (clean s)))
     \<and> min_alpha_ratio
         \<le> of_nat (length (filter isalpha (clean s))) / of_nat (length (clean s))"

definition passes :: "string \<Rightarrow> bool" where
  \<comment> \<open>the classifier, called as the reducer calls it, answers True\<close>
  "passes t \<longleftrightarrow> is_quality_english_default (Scalar (Text t)) = Inr True"

definition passing_texts :: "(string \<Rightarrow> cell) \<Rightarrow> string list \<Rightarrow> string list" where
  \<comment> \<open>the coerced texts of the row's cells that pass, in the order of the scanned columns\<close>
  "passing_texts row cols = filter passes (map (\<lambda>col. coerce_cell (row col)) cols)"

definition is_first_longest :: "string \<Rightarrow> string list \<Rightarrow> bool" where
  \<comment> \<open>\<open>t\<close> occurs in \<open>ts\<close> with only shorter texts before it and none longer after it\<close>
  "is_first_longest t ts \<longleftrightarrow>
     (\<exists>pre post. ts = pre @ t # post
        \<and> (\<forall>u \<in> set pre. length u < length t) \<and> (\<forall>u \<in> set post. length u \<le> length t))"

definition record_for :: "string list \<Rightarrow> (string \<Rightarrow> cell) \<Rightarrow> string list \<Rightarrow> bool" where
  \<comment> \<open>what one row adds to the collected texts: nothing when none of its cells passes,
      else the first longest of its passing texts and nothing more\<close>
  "record_for cols row added \<longleftrightarrow>
     (if passing_texts row cols = [] then added = []
      else \<exists>t. added = [t] \<and> is_first_longest t (passing_texts row cols))"

definition in_source_order :: "table \<Rightarrow> string list \<Rightarrow> string list" where
  \<comment> \<open>the columns of the table that are in \<open>cols\<close>, in the order of the table\<close>
  "in_source_order df cols = filter (\<lambda>col. col \<in> set cols) (columns df)"

definition first_index :: "'a list \<Rightarrow> 'a \<Rightarrow> nat" where
  \<comment> \<open>the position of the first occurrence of \<open>x\<close> in \<open>xs\<close>\<close>
  "first_index xs x = length (takeWhile (\<lambda>y. y \<noteq> x) xs)"

section \<open>Sample inputs\<close>

definition row_of :: "(string \<times> cell) list \<Rightarrow> string \<Rightarrow> cell" where
  "row_of kvs col = (case map_of kvs col of Some v \<Rightarrow> v | None \<Rightarrow> Missing)"

definition sample_table :: table where
  "sample_table =
     \<lparr>columns = [''id'', ''sms'', ''note''],
      rows =
        [row_of [(''id'', Number ''1''), (''sms'', Text ''call the bank now''),
                 (''note'', Text ''please send the money now'')],
         row_of [(''id'', Number ''2''), (''note'', Number ''0'')],
         row_of [(''id'', Number ''3''), (''sms'', Text ''please  send the money now''),
                 (''note'', Text ''free cash for you today ok'')],
         row_of [(''id'', Number ''4''), (''sms'', Text ''call the bank now'')],
         row_of [(''id'', Number ''5''), (''note'', Text ''please send the money now'')]]\<rparr>"

definition header_only :: table where
  "header_only = \<lparr>columns = [''sms''], rows = []\<rparr>"

definition sample_read_csv :: "strategy \<Rightarrow> string \<Rightarrow> exn + table" where
  \<comment> \<open>a header-only source, a source that no parse can read, and one that only the
      lenient parse can read\<close>
  "sample_read_csv st path =
     (if path = ''empty.csv'' then Inr header_only
      else if path = ''missing.csv'' then Inl (ReadError ''no such file'')
      else (case st of
          LenientParse \<Rightarrow> Inr sample_table
        | _ \<Rightarrow> Inl (ReadError ''bad line'')))"

section \<open>Facts about the string operations and the classifier\<close>

lemma length_collapse_ws: "length (collapse_ws s) \<le> length s"
proof (induction s rule: collapse_ws.induct)
  case 1
  show ?case by simp
next
  case (2 c cs)
  have "length (dropWhile isspace cs) \<le> length cs"
    by (rule length_dropWhile_le)
  with 2 show ?case
    by (cases "isspace c") auto
qed

lemma length_lstrip: "length (lstrip s) \<le> length s"
  by (simp add: lstrip_def length_dropWhile_le)

lemma length_rstrip: "length (rstrip s) \<le> length s"
  using length_dropWhile_le [of isspace "rev s"] by (simp add: rstrip_def)

lemma length_strip: "length (strip s) \<le> length s"
  using length_rstrip [of "lstrip s"] length_lstrip [of s] by (simp add: strip_def)

lemma length_clean: "length (clean s) \<le> length s"
  using length_strip [of "collapse_ws s"] length_collapse_ws [of s] by (simp add: clean_def)

lemma iqe_text:
  "is_quality_english (Scalar (Text s)) mw mar ml =
     (if strip s = [] then Inr False
      else if int (length (clean s)) < ml then Inr False
      else if search_x5 (clean s) then Inr False
      else if int (length (split_ws (clean s))) < mw then Inr False
      else if length (clean s) > 0
              \<and> of_nat (length (filter isalpha (clean s))) / of_nat (length (clean s)) < mar
           then Inr False
      else if length (clean s) > 50 then Inr (english_word_count (lower (clean s)) \<ge> 2)
      else Inr (english_word_count (lower (clean s)) \<ge> 1))"
  by (simp add: is_quality_english_def pd_isna_def truth_def cell_isna_def Let_def)

lemma short_fails:
  "int (length s) < ml \<Longrightarrow> is_quality_english (Scalar (Text s)) mw mar ml = Inr False"
  using length_clean [of s] by (simp add: iqe_text)

lemma search_x5_append: "search_x5 (ps @ ''XXXXX'' @ ss)"
  by (induction ps) simp_all

lemma not_isspace_X: "\<not> isspace CHR ''X''"
  by (simp add: isspace_def)

lemma collapse_ws_append_hd:
  "v = [] \<or> \<not> isspace (hd v) \<Longrightarrow> collapse_ws (u @ v) = collapse_ws u @ collapse_ws v"
proof (induction u rule: collapse_ws.induct)
  case 1
  show ?case by simp
next
  case (2 c cs)
  show ?case
  proof (cases "isspace c")
    case False
    with 2 show ?thesis by simp
  next
    case True
    have d: "dropWhile isspace (cs @ v) = dropWhile isspace cs @ v"
      using "2.prems" by (cases v) (auto simp: dropWhile_append)
    show ?thesis
      using True 2 d by simp
  qed
qed

lemma dropWhile_keeps:
  "\<not> P x \<Longrightarrow> \<exists>a'. dropWhile P (a @ x # b) = a' @ x # b"
  by (induction a) auto

lemma lstrip_keeps: "\<not> isspace x \<Longrightarrow> \<exists>a'. lstrip (a @ x # b) = a' @ x # b"
  unfolding lstrip_def by (rule dropWhile_keeps)

lemma rstrip_keeps:
  assumes "\<not> isspace x"
  shows "\<exists>b'. rstrip (a @ x # b) = a @ x # b'"
proof -
  obtain r where "dropWhile isspace (rev b @ x # rev a) = r @ x # rev a"
    using dropWhile_keeps [of isspace x "rev b" "rev a"] assms by blast
  then have "rstrip (a @ x # b) = a @ x # rev r"
    by (simp add: rstrip_def)
  then show ?thesis by blast
qed

lemma strip_keeps_x5: "\<exists>a' b'. strip (a @ ''XXXXX'' @ b) = a' @ ''XXXXX'' @ b'"
proof -
  obtain a' where l: "lstrip (a @ CHR ''X'' # (''XXXX'' @ b)) = a' @ CHR ''X'' # (''XXXX'' @ b)"
    using lstrip_keeps [OF not_isspace_X] by blast
  obtain b' where r: "rstrip ((a' @ ''XXXX'') @ CHR ''X'' # b) = (a' @ ''XXXX'') @ CHR ''X'' # b'"
    using rstrip_keeps [OF not_isspace_X] by blast
  have "strip (a @ ''XXXXX'' @ b) = a' @ ''XXXXX'' @ b'"
    using l r by (simp add: strip_def)
  then show ?thesis by blast
qed

lemma clean_keeps_x5: "\<exists>a b. clean (pre @ ''XXXXX'' @ post) = a @ ''XXXXX'' @ b"
proof -
  have "collapse_ws (pre @ ''XXXXX'' @ post) = collapse_ws pre @ collapse_ws (''XXXXX'' @ post)"
    by (rule collapse_ws_append_hd) (simp add: not_isspace_X)
  also have "collapse_ws (''XXXXX'' @ post) = ''XXXXX'' @ collapse_ws post"
    by (simp add: not_isspace_X)
  finally show ?thesis
    unfolding clean_def using strip_keeps_x5 by simp
qed

lemma replicate_x5: "5 \<le> n \<Longrightarrow> replicate n CHR ''X'' = ''XXXXX'' @ replicate (n - 5) CHR ''X''"
proof -
  assume "5 \<le> n"
  then have "replicate n CHR ''X'' = replicate (5 + (n - 5)) CHR ''X''"
    by simp
  also have "\<dots> = replicate 5 CHR ''X'' @ replicate (n - 5) CHR ''X''"
    by (rule replicate_add)
  also have "replicate 5 CHR ''X'' = ''XXXXX''"
    by (simp add: numeral_eq_Suc)
  finally show ?thesis .
qed

lemma x_run_fails:
  assumes "5 \<le> n"
  shows "is_quality_english (Scalar (Text (pre @ replicate n CHR ''X'' @ post))) mw mar ml = Inr False"
proof -
  obtain a b where "clean (pre @ ''XXXXX'' @ (replicate (n - 5) CHR ''X'' @ post)) = a @ ''XXXXX'' @ b"
    using clean_keeps_x5 by blast
  then have "search_x5 (clean (pre @ replicate n CHR ''X'' @ post))"
    using replicate_x5 [OF assms] search_x5_append [of a b] by simp
  then show ?thesis
    by (simp add: iqe_text)
qed

lemma str_contains_iff: "str_contains n h \<longleftrightarrow> (\<exists>pre post. h = pre @ n @ post)"
proof (induction h)
  case Nil
  show ?case by auto
next
  case (Cons c cs)
  have "take (length n) (c # cs) = n \<longleftrightarrow> (\<exists>post. c # cs = n @ post)"
    by (metis append_eq_conv_conj)
  moreover have "(\<exists>pre post. c # cs = pre @ n @ post)
      \<longleftrightarrow> (\<exists>post. c # cs = n @ post) \<or> (\<exists>pre post. cs = pre @ n @ post)"
  proof
    assume "\<exists>pre post. c # cs = pre @ n @ post"
    then obtain pre post where e: "c # cs = pre @ n @ post" by blast
    show "(\<exists>post. c # cs = n @ post) \<or> (\<exists>pre post. cs = pre @ n @ post)"
    proof (cases pre)
      case Nil
      with e show ?thesis by auto
    next
      case (Cons p ps)
      with e have "cs = ps @ n @ post" by simp
      then show ?thesis by blast
    qed
  next
    assume "(\<exists>post. c # cs = n @ post) \<or> (\<exists>pre post. cs = pre @ n @ post)"
    then show "\<exists>pre post. c # cs = pre @ n @ post"
    proof
      assume "\<exists>post. c # cs = n @ post"
      then obtain post where "c # cs = [] @ n @ post" by auto
      then show ?thesis by blast
    next
      assume "\<exists>pre post. cs = pre @ n @ post"
      then obtain pre post where "c # cs = (c # pre) @ n @ post" by auto
      then show ?thesis by blast
    qed
  qed
  ultimately show ?case using Cons by simp
qed

lemma distinct_common_english_words: "distinct common_english_words"
  by (simp add: common_english_words_def)

lemma english_word_count_eq: "english_word_count (lower t) = match_count t"
proof -
  have "english_word_count (lower t)
      = length (filter (\<lambda>word. whole_word_match word t) common_english_words)"
    by (simp add: english_word_count_def whole_word_match_def str_contains_iff)
  also have "\<dots> = card ({word. whole_word_match word t} \<inter> set common_english_words)"
    using distinct_common_english_words by (rule distinct_length_filter)
  also have "{word. whole_word_match word t} \<inter> set common_english_words
      = {word \<in> set common_english_words. whole_word_match word t}"
    by auto
  finally show ?thesis by (simp add: match_count_def)
qed

lemma threshold_on_survivors:
  assumes "survives_checks s mw mar ml"
  shows "is_quality_english (Scalar (Text s)) mw mar ml =
      Inr (if length (clean s) > 50 then 2 \<le> match_count (clean s) else 1 \<le> match_count (clean s))"
  using assms by (simp add: iqe_text survives_checks_def english_word_count_eq not_less)

lemma iqe_scalar_total: "\<exists>b. is_quality_english (Scalar c) mw mar ml = Inr b"
proof (cases c)
  case Missing
  then have "is_quality_english (Scalar c) mw mar ml = Inr False"
    by (simp add: is_quality_english_def pd_isna_def truth_def cell_isna_def)
  then show ?thesis by blast
next
  case (Text s)
  show ?thesis
    unfolding Text iqe_text by auto
next
  case (Number r)
  then have "is_quality_english (Scalar c) mw mar ml = Inr False"
    by (simp add: is_quality_english_def pd_isna_def truth_def cell_isna_def)
  then show ?thesis by blast
qed

section \<open>Facts about whitespace normalisation and the row scan\<close>

lemma rstrip_Cons:
  "rstrip (c # cs) = (if \<forall>x \<in> set (c # cs). isspace x then [] else c # rstrip cs)"
  by (auto simp: rstrip_def dropWhile_append)

lemma lstrip_rstrip_commute: "lstrip (rstrip s) = rstrip (lstrip s)"
proof (induction s)
  case Nil
  show ?case by (simp add: lstrip_def rstrip_def)
next
  case (Cons c cs)
  show ?case
  proof (cases "\<forall>x \<in> set (c # cs). isspace x")
    case True
    then have l: "lstrip (c # cs) = []" by (simp add: lstrip_def)
    have r: "rstrip (c # cs) = []" using True by (simp add: rstrip_Cons)
    have "lstrip [] = rstrip []" by (simp add: lstrip_def rstrip_def)
    then show ?thesis by (simp only: l r)
  next
    case False
    then have r: "rstrip (c # cs) = c # rstrip cs" by (simp add: rstrip_Cons)
    show ?thesis
    proof (cases "isspace c")
      case True
      then have "lstrip (c # cs) = lstrip cs" "lstrip (c # rstrip cs) = lstrip (rstrip cs)"
        by (simp_all add: lstrip_def)
      with r Cons show ?thesis by simp
    next
      case False
      then have "lstrip (c # cs) = c # cs" "lstrip (c # rstrip cs) = c # rstrip cs"
        by (simp_all add: lstrip_def)
      with r show ?thesis by simp
    qed
  qed
qed

lemma collapse_ws_all_space: "(\<forall>x \<in> set (collapse_ws s). isspace x) \<longleftrightarrow> (\<forall>x \<in> set s. isspace x)"
proof (induction s rule: collapse_ws.induct)
  case 1
  show ?case by simp
next
  case (2 c cs)
  have sp: "isspace CHR '' ''" by (simp add: isspace_def)
  have d: "(\<forall>x \<in> set (dropWhile isspace cs). isspace x) \<longleftrightarrow> (\<forall>x \<in> set cs. isspace x)"
    by (metis dropWhile_eq_Nil_conv hd_dropWhile list.set_sel(1) empty_iff list.set(1))
  show ?case
    using 2 sp d by (cases "isspace c") auto
qed

lemma lstrip_collapse_ws: "lstrip (collapse_ws s) = collapse_ws (lstrip s)"
proof (cases s)
  case Nil
  then show ?thesis by (simp add: lstrip_def)
next
  case (Cons c cs)
  have sp: "isspace CHR '' ''" by (simp add: isspace_def)
  have stay: "lstrip (collapse_ws m) = collapse_ws m" if "m = [] \<or> \<not> isspace (hd m)" for m
    using that by (cases m) (auto simp: lstrip_def)
  show ?thesis
  proof (cases "isspace c")
    case False
    then have "lstrip s = s" by (simp add: Cons lstrip_def)
    moreover have "lstrip (collapse_ws s) = collapse_ws s"
      using False by (intro stay) (simp add: Cons)
    ultimately show ?thesis by simp
  next
    case True
    let ?m = "dropWhile isspace cs"
    have m: "?m = [] \<or> \<not> isspace (hd ?m)"
      using hd_dropWhile [of isspace cs] by blast
    have "lstrip s = ?m" using True by (simp add: Cons lstrip_def)
    moreover have "collapse_ws s = CHR '' '' # collapse_ws ?m"
      using True by (simp add: Cons)
    then have "lstrip (collapse_ws s) = lstrip (collapse_ws ?m)"
      using sp by (simp add: lstrip_def)
    ultimately show ?thesis using stay [OF m] by simp
  qed
qed

lemma rstrip_collapse_ws: "rstrip (collapse_ws s) = collapse_ws (rstrip s)"
proof (induction s rule: collapse_ws.induct)
  case 1
  show ?case by (simp add: rstrip_def)
next
  case (2 c cs)
  show ?case
  proof (cases "isspace c")
    case False
    then have "rstrip (c # cs) = c # rstrip cs"
      by (simp add: rstrip_Cons)
    moreover have "rstrip (c # collapse_ws cs) = c # rstrip (collapse_ws cs)"
      using False by (simp add: rstrip_Cons)
    ultimately show ?thesis using False 2 by simp
  next
    case True
    let ?d = "dropWhile isspace cs"
    have ih: "rstrip (collapse_ws ?d) = collapse_ws (rstrip ?d)"
      using 2 True by simp
    have c: "collapse_ws (c # cs) = CHR '' '' # collapse_ws ?d"
      using True by simp
    have sp: "isspace CHR '' ''" by (simp add: isspace_def)
    have d: "(\<forall>x \<in> set ?d. isspace x) \<longleftrightarrow> (\<forall>x \<in> set cs. isspace x)"
      by (metis dropWhile_eq_Nil_conv hd_dropWhile list.set_sel(1) empty_iff list.set(1))
    show ?thesis
    proof (cases "\<forall>x \<in> set cs. isspace x")
      case all: True
      then have "rstrip (c # cs) = []"
        using True by (simp add: rstrip_Cons)
      moreover have "\<forall>x \<in> set (collapse_ws ?d). isspace x"
        using all d collapse_ws_all_space by blast
      then have "rstrip (CHR '' '' # collapse_ws ?d) = []"
        using sp by (simp add: rstrip_Cons)
      ultimately show ?thesis using c by simp
    next
      case nall: False
      then have "rstrip (c # cs) = c # rstrip cs"
        by (simp add: rstrip_Cons)
      then have "collapse_ws (rstrip (c # cs)) = CHR '' '' # collapse_ws (lstrip (rstrip cs))"
        using True by (simp add: lstrip_def)
      also have "lstrip (rstrip cs) = rstrip ?d"
        by (simp add: lstrip_rstrip_commute) (simp add: lstrip_def)
      finally have rhs: "collapse_ws (rstrip (c # cs)) = CHR '' '' # collapse_ws (rstrip ?d)" .
      have "\<not> (\<forall>x \<in> set (collapse_ws ?d). isspace x)"
        using nall d collapse_ws_all_space by blast
      then have "rstrip (CHR '' '' # collapse_ws ?d) = CHR '' '' # rstrip (collapse_ws ?d)"
        by (simp add: rstrip_Cons)
      then show ?thesis using c rhs ih by simp
    qed
  qed
qed

lemma clean_eq: "clean s = collapse_ws (strip s)"
  by (simp add: clean_def strip_def lstrip_collapse_ws rstrip_collapse_ws)

lemma length_clean_strip: "length (clean s) \<le> length (strip s)"
  by (simp add: clean_eq length_collapse_ws)

lemma sentinel_fails:
  assumes "strip t \<in> set sentinels"
  shows "is_quality_english_default (Scalar (Text t)) = Inr False"
proof -
  have "length (strip t) \<le> 4"
    using assms by (auto simp: sentinels_def)
  then have "int (length (clean t)) < 15"
    using length_clean_strip [of t] by simp
  then show ?thesis
    by (simp add: is_quality_english_default_def iqe_text)
qed

lemma iqe_default_passes: "is_quality_english_default (Scalar (Text t)) = Inr (passes t)"
proof -
  obtain b where "is_quality_english_default (Scalar (Text t)) = Inr b"
    using iqe_scalar_total [of "Text t" 4 "1 / 2" 15] by (auto simp: is_quality_english_default_def)
  then show ?thesis by (simp add: passes_def)
qed

lemma scan_row_eq:
  "set cols \<subseteq> set (columns df) \<Longrightarrow>
     scan_row df row cols acc = Inr (acc @ passing_texts row cols)"
proof (induction cols arbitrary: acc)
  case Nil
  show ?case by (simp add: passing_texts_def)
next
  case (Cons col cols)
  then have ih: "\<And>acc. scan_row df row cols acc = Inr (acc @ passing_texts row cols)"
    by simp
  have g: "row_get df row col = Inr (row col)"
    using Cons.prems by (simp add: row_get_def)
  show ?case
  proof (cases "strip (coerce_cell (row col)) \<in> set sentinels")
    case True
    then have "\<not> passes (coerce_cell (row col))"
      using sentinel_fails by (simp add: passes_def)
    then show ?thesis
      using True g ih by (simp add: passing_texts_def)
  next
    case False
    then show ?thesis
      using g ih by (simp add: iqe_default_passes passing_texts_def)
  qed
qed

section \<open>Facts about selection, deduplication and loading\<close>

lemma is_first_longest_max:
  "is_first_longest h xs \<Longrightarrow> u \<in> set xs \<Longrightarrow> length u \<le> length h"
  by (fastforce simp: is_first_longest_def intro: less_imp_le)

lemma is_first_longest_single: "is_first_longest x [x]"
proof -
  have "[x] = [] @ x # []" by simp
  then show ?thesis unfolding is_first_longest_def by fastforce
qed

lemma is_first_longest_head:
  assumes "\<forall>u \<in> set xs. length u \<le> length x"
  shows "is_first_longest x (x # xs)"
proof -
  have "x # xs = [] @ x # xs" by simp
  with assms show ?thesis unfolding is_first_longest_def by fastforce
qed

lemma is_first_longest_later:
  assumes "is_first_longest h xs" and "length x < length h"
  shows "is_first_longest h (x # xs)"
proof -
  obtain pre post where xs: "xs = pre @ h # post"
    and pre: "\<forall>u \<in> set pre. length u < length h"
    and post: "\<forall>u \<in> set post. length u \<le> length h"
    using assms(1) unfolding is_first_longest_def by blast
  have "x # xs = (x # pre) @ h # post" using xs by simp
  moreover have "\<forall>u \<in> set (x # pre). length u < length h" using pre assms(2) by simp
  ultimately show ?thesis unfolding is_first_longest_def using post by blast
qed

lemma sorted_by_len_desc_first:
  "ts \<noteq> [] \<Longrightarrow> \<exists>t rest. sorted_by_len_desc ts = t # rest \<and> is_first_longest t ts"
proof (induction ts)
  case Nil
  then show ?case by simp
next
  case (Cons x xs)
  show ?case
  proof (cases "xs = []")
    case True
    then show ?thesis
      by (simp add: sorted_by_len_desc_def is_first_longest_single)
  next
    case False
    then obtain h rest where s: "sorted_by_len_desc xs = h # rest" and f: "is_first_longest h xs"
      using Cons.IH by blast
    have step: "sorted_by_len_desc (x # xs)
        = insort_key (\<lambda>t. - int (length t)) x (h # rest)"
      using s by (simp add: sorted_by_len_desc_def)
    show ?thesis
    proof (cases "length h \<le> length x")
      case True
      then have "sorted_by_len_desc (x # xs) = x # h # rest"
        using step by simp
      moreover have "is_first_longest x (x # xs)"
        using is_first_longest_max [OF f] True by (intro is_first_longest_head) (meson le_trans)
      ultimately show ?thesis by blast
    next
      case False
      then have "sorted_by_len_desc (x # xs) = h # insort_key (\<lambda>t. - int (length t)) x rest"
        using step by simp
      moreover have "is_first_longest h (x # xs)"
        using f False by (intro is_first_longest_later) simp_all
      ultimately show ?thesis by blast
    qed
  qed
qed

lemma longest_text_first:
  "ts \<noteq> [] \<Longrightarrow> \<exists>t. longest_text ts = Inr t \<and> is_first_longest t ts"
  using sorted_by_len_desc_first [of ts] by (auto simp: longest_text_def)

lemma scan_rows_eq:
  "set cols \<subseteq> set (columns df) \<Longrightarrow>
     \<exists>recs. scan_rows df cols rs acc = Inr (acc @ concat recs)
          \<and> list_all2 (record_for cols) rs recs"
proof (induction rs arbitrary: acc)
  case Nil
  show ?case by simp
next
  case (Cons row rs)
  have r: "scan_row df row cols [] = Inr (passing_texts row cols)"
    using scan_row_eq [OF Cons.prems, of row "[]"] by simp
  show ?case
  proof (cases "passing_texts row cols = []")
    case True
    obtain recs where "scan_rows df cols rs acc = Inr (acc @ concat recs)"
      and "list_all2 (record_for cols) rs recs"
      using Cons.IH [OF Cons.prems] by blast
    then have "scan_rows df cols (row # rs) acc = Inr (acc @ concat ([] # recs))"
      and "list_all2 (record_for cols) (row # rs) ([] # recs)"
      using r True by (simp_all add: record_for_def)
    then show ?thesis by blast
  next
    case False
    then obtain t where t: "longest_text (passing_texts row cols) = Inr t"
      and f: "is_first_longest t (passing_texts row cols)"
      using longest_text_first by blast
    obtain recs where "scan_rows df cols rs (acc @ [t]) = Inr ((acc @ [t]) @ concat recs)"
      and "list_all2 (record_for cols) rs recs"
      using Cons.IH [OF Cons.prems] by blast
    then have "scan_rows df cols (row # rs) acc = Inr (acc @ concat ([t] # recs))"
      and "list_all2 (record_for cols) (row # rs) ([t] # recs)"
      using r False t f by (simp_all add: record_for_def)
    then show ?thesis by blast
  qed
qed

lemma record_for_length: "record_for cols row added \<Longrightarrow> length added \<le> 1"
  by (auto simp: record_for_def split: if_splits)

lemma concat_records_length:
  "list_all2 (record_for cols) rs recs \<Longrightarrow> length (concat recs) \<le> length rs"
proof (induction rule: list_all2_induct)
  case Nil
  show ?case by simp
next
  case (Cons row rs added recs)
  then show ?case
    using record_for_length [of cols row added] by simp
qed

lemma select_columns_subset: "set (select_columns df text_columns) \<subseteq> set (columns df)"
  by (cases text_columns) (auto simp: select_columns_def list_all_iff)

lemma set_drop_duplicates_seen: "set (drop_duplicates_seen seen xs) = set xs - set seen"
  by (induction xs arbitrary: seen) auto

lemma distinct_drop_duplicates_seen: "distinct (drop_duplicates_seen seen xs)"
  by (induction xs arbitrary: seen) (auto simp: set_drop_duplicates_seen)

lemma length_drop_duplicates_seen: "length (drop_duplicates_seen seen xs) \<le> length xs"
proof (induction xs arbitrary: seen)
  case Nil
  show ?case by simp
next
  case (Cons x xs)
  show ?case
    using Cons [of seen] Cons [of "x # seen"] by simp
qed

lemma first_index_Cons:
  "first_index (x # xs) y = (if y = x then 0 else Suc (first_index xs y))"
  by (auto simp: first_index_def)

lemma order_drop_duplicates_seen:
  "sorted_wrt (\<lambda>a b. first_index xs a < first_index xs b) (drop_duplicates_seen seen xs)"
proof (induction xs arbitrary: seen)
  case Nil
  show ?case by simp
next
  case (Cons x xs)
  have lift: "sorted_wrt (\<lambda>a b. first_index (x # xs) a < first_index (x # xs) b) ys"
    if "sorted_wrt (\<lambda>a b. first_index xs a < first_index xs b) ys" and "x \<notin> set ys" for ys
  proof (rule sorted_wrt_mono_rel [OF _ that(1)])
    fix a b
    assume "a \<in> set ys" "b \<in> set ys" "first_index xs a < first_index xs b"
    then show "first_index (x # xs) a < first_index (x # xs) b"
      using that(2) by (auto simp: first_index_Cons)
  qed
  show ?case
  proof (cases "x \<in> set seen")
    case True
    then have "x \<notin> set (drop_duplicates_seen seen xs)"
      by (simp add: set_drop_duplicates_seen)
    then show ?thesis
      using True lift [OF Cons [of seen]] by simp
  next
    case False
    have nx: "x \<notin> set (drop_duplicates_seen (x # seen) xs)"
      by (simp add: set_drop_duplicates_seen)
    have "\<forall>b \<in> set (drop_duplicates_seen (x # seen) xs).
        first_index (x # xs) x < first_index (x # xs) b"
      using nx by (auto simp: first_index_Cons)
    then show ?thesis
      using False lift [OF Cons [of "x # seen"] nx] by simp
  qed
qed

lemma load_source_cases:
  "load_source read_csv f =
     (if \<not> isl (read_csv DefaultParse f) then ([DefaultParse], read_csv DefaultParse f)
      else if \<not> isl (read_csv Latin1Parse f)
        then ([DefaultParse, Latin1Parse], read_csv Latin1Parse f)
      else ([DefaultParse, Latin1Parse, LenientParse], read_csv LenientParse f))"
  by (auto simp: load_source_def split: sum.splits)

lemma records_origin:
  assumes "list_all2 (record_for cols) rs recs" and "t \<in> set (concat recs)"
  shows "\<exists>row \<in> set rs. \<exists>col \<in> set cols. t = coerce_cell (row col) \<and> passes t"
proof -
  obtain added where "added \<in> set recs" and "t \<in> set added"
    using assms(2) by auto
  then obtain i where i: "i < length recs" and t: "t \<in> set (recs ! i)"
    by (metis in_set_conv_nth)
  have len: "length rs = length recs"
    using assms(1) by (rule list_all2_lengthD)
  have r: "record_for cols (rs ! i) (recs ! i)"
    using assms(1) i by (simp add: list_all2_conv_all_nth)
  then have "is_first_longest t (passing_texts (rs ! i) cols)"
    using t by (auto simp: record_for_def split: if_splits)
  then have "t \<in> set (passing_texts (rs ! i) cols)"
    by (auto simp: is_first_longest_def)
  then have "\<exists>col \<in> set cols. t = coerce_cell ((rs ! i) col) \<and> passes t"
    by (auto simp: passing_texts_def)
  moreover have "rs ! i \<in> set rs"
    using i len by simp
  ultimately show ?thesis by blast
qed

lemma records_kept:
  assumes "list_all2 (record_for cols) rs recs" and "row \<in> set rs"
  shows "\<exists>added. record_for cols row added \<and> set added \<subseteq> set (concat recs)"
proof -
  obtain i where i: "i < length rs" and row: "rs ! i = row"
    using assms(2) by (auto simp: in_set_conv_nth)
  have len: "length rs = length recs"
    using assms(1) by (rule list_all2_lengthD)
  have "record_for cols row (recs ! i)"
    using assms(1) i row by (auto simp: list_all2_conv_all_nth)
  moreover have "recs ! i \<in> set recs"
    using i len by simp
  then have "set (recs ! i) \<subseteq> set (concat recs)"
    by auto
  ultimately show ?thesis by blast
qed

lemma reduce_table_eq:
  "\<exists>recs. list_all2 (record_for (select_columns df text_columns)) (rows df) recs
     \<and> scan_rows df (select_columns df text_columns) (rows df) [] = Inr (concat recs)
     \<and> saved (reduce_table df text_columns) = Some (drop_duplicates (concat recs))
     \<and> returned (reduce_table df text_columns)
         = (if rows df = [] then Inl ZeroDivisionError
            else Inr (drop_duplicates (concat recs)))"
proof -
  obtain recs where s: "scan_rows df (select_columns df text_columns) (rows df) [] = Inr ([] @ concat recs)"
    and l: "list_all2 (record_for (select_columns df text_columns)) (rows df) recs"
    using scan_rows_eq [OF select_columns_subset] by blast
  have "saved (reduce_table df text_columns) = Some (drop_duplicates (concat recs))"
    using s by (simp add: reduce_table_def true_div_def Let_def)
  moreover have "returned (reduce_table df text_columns)
         = (if rows df = [] then Inl ZeroDivisionError
            else Inr (drop_duplicates (concat recs)))"
    using s by (simp add: reduce_table_def true_div_def Let_def)
  ultimately show ?thesis using s l by auto
qed

lemma select_columns_some:
  "select_columns df (Some cols) = (if set cols \<subseteq> set (columns df) then cols else columns df)"
  by (auto simp: select_columns_def list_all_iff)

lemma select_columns_none: "select_columns df None = columns df"
  by (simp add: select_columns_def)

lemma reduce_table_fallback:
  "\<not> set cols \<subseteq> set (columns df) \<Longrightarrow> reduce_table df (Some cols) = reduce_table df None"
  by (simp add: reduce_table_def select_columns_some select_columns_none)

section \<open>The claims\<close>

text \<open>
  C1. A text that is not blank and passes the length, placeholder, word-count and
  alphabetic-ratio checks is accepted exactly when its keyword match count meets the
  threshold of its length: at least 2 of the common words when the normalised text is
  longer than 50 characters, at least 1 otherwise, a word counting when it occurs in
  the lower-cased text between two spaces, the text being padded with one space on each
  side. The sample sentence of the specification is accepted.
\<close>

theorem keyword_threshold:
  "(survives_checks s min_words min_alpha_ratio min_length \<longrightarrow>
      is_quality_english (Scalar (Text s)) min_words min_alpha_ratio min_length
        = Inr (if length (clean s) > 50 then 2 \<le> match_count (clean s)
               else 1 \<le> match_count (clean s)))
   \<and> is_quality_english_default (Scalar (Text
        ''Please send your bank account number to claim your prize now, congratulations!''))
        = Inr True"
proof
  show "survives_checks s min_words min_alpha_ratio min_length \<longrightarrow>
      is_quality_english (Scalar (Text s)) min_words min_alpha_ratio min_length
        = Inr (if length (clean s) > 50 then 2 \<le> match_count (clean s)
               else 1 \<le> match_count (clean s))"
    using threshold_on_survivors by blast
  show "is_quality_english_default (Scalar (Text
        ''Please send your bank account number to claim your prize now, congratulations!''))
        = Inr True"
    by code_simp
qed

theorem keyword_threshold_witness:
  "survives_checks ''call the bank now'' 4 (1 / 2) 15
   \<and> length (clean ''call the bank now'') \<le> 50
   \<and> is_quality_english (Scalar (Text ''call the bank now'')) 4 (1 / 2) 15
        = Inr (1 \<le> match_count (clean ''call the bank now''))
   \<and> 1 \<le> match_count (clean ''call the bank now'')"
proof -
  have h: "survives_checks ''call the bank now'' 4 (1 / 2) 15"
    by code_simp
  have l: "length (clean ''call the bank now'') \<le> 50"
    by code_simp
  have e: "is_quality_english (Scalar (Text ''call the bank now'')) 4 (1 / 2) 15 = Inr True"
    by code_simp
  have t: "is_quality_english (Scalar (Text ''call the bank now'')) 4 (1 / 2) 15
        = Inr (1 \<le> match_count (clean ''call the bank now''))"
    using keyword_threshold [of "''call the bank now''" 4 "1 / 2" 15] h l by auto
  with e have "1 \<le> match_count (clean ''call the bank now'')"
    by simp
  with h l t show ?thesis by blast
qed

text \<open>
  C2, as the code has it. With the caller's list \<open>['note', 'sms']\<close> the third row of the
  sample table has two passing cells of one length, 26 characters. Taken in the table's
  column order, \<open>sms\<close> before \<open>note\<close>, the first of them is the \<open>sms\<close> text; the row
  adds the \<open>note\<close> text, the first in the order of the caller's list.
\<close>

theorem tie_not_in_source_order:
  "select_columns sample_table (Some [''note'', ''sms'']) = [''note'', ''sms'']
   \<and> in_source_order sample_table [''note'', ''sms''] = [''sms'', ''note'']
   \<and> scan_rows sample_table (select_columns sample_table (Some [''note'', ''sms'']))
         (rows sample_table) []
       = Inr [''please send the money now'', ''free cash for you today ok'',
              ''call the bank now'', ''please send the money now'']
   \<and> passing_texts (rows sample_table ! 2) (in_source_order sample_table [''note'', ''sms''])
       = [''please  send the money now'', ''free cash for you today ok'']
   \<and> \<not> is_first_longest ''free cash for you today ok''
         (passing_texts (rows sample_table ! 2)
            (in_source_order sample_table [''note'', ''sms'']))"
proof -
  have a: "select_columns sample_table (Some [''note'', ''sms'']) = [''note'', ''sms'']"
    by code_simp
  have b: "in_source_order sample_table [''note'', ''sms''] = [''sms'', ''note'']"
    by code_simp
  have c: "scan_rows sample_table (select_columns sample_table (Some [''note'', ''sms'']))
         (rows sample_table) []
       = Inr [''please send the money now'', ''free cash for you today ok'',
              ''call the bank now'', ''please send the money now'']"
    by code_simp
  have d: "passing_texts (rows sample_table ! 2) (in_source_order sample_table [''note'', ''sms''])
       = [''please  send the money now'', ''free cash for you today ok'']"
    by code_simp
  have e: "\<not> is_first_longest ''free cash for you today ok''
      [''please  send the money now'', ''free cash for you today ok'']"
  proof
    assume "is_first_longest ''free cash for you today ok''
      [''please  send the money now'', ''free cash for you today ok'']"
    then obtain pre post where
      p: "[''please  send the money now'', ''free cash for you today ok'']
            = pre @ ''free cash for you today ok'' # post"
      and q: "\<forall>u \<in> set pre. length u < length ''free cash for you today ok''"
      unfolding is_first_longest_def by blast
    from p have "pre = [''please  send the money now'']"
      by (cases pre) (auto simp: Cons_eq_append_conv)
    with q show False by simp
  qed
  show ?thesis using a b c d e by (simp only: simp_thms)
qed

text \<open>
  C2, amended. Every row adds to the collected texts either nothing, when none of its
  scanned cells passes the classifier, or exactly one text: the longest of its passing
  cell texts, the earliest in scan order among those of the greatest length. The scan
  order is the order of the caller's list when every name of it is a column, and the
  table's column order when all columns are scanned.
\<close>

theorem longest_passing_cell_per_row:
  "(\<exists>recs. scan_rows df (select_columns df text_columns) (rows df) [] = Inr (concat recs)
      \<and> list_all2 (record_for (select_columns df text_columns)) (rows df) recs)
   \<and> select_columns df text_columns
       = (case text_columns of
            None \<Rightarrow> columns df
          | Some cols \<Rightarrow> if set cols \<subseteq> set (columns df) then cols else columns df)"
proof
  show "\<exists>recs. scan_rows df (select_columns df text_columns) (rows df) [] = Inr (concat recs)
      \<and> list_all2 (record_for (select_columns df text_columns)) (rows df) recs"
    using reduce_table_eq [of df text_columns] by blast
  show "select_columns df text_columns
       = (case text_columns of
            None \<Rightarrow> columns df
          | Some cols \<Rightarrow> if set cols \<subseteq> set (columns df) then cols else columns df)"
    by (cases text_columns) (simp_all add: select_columns_none select_columns_some)
qed

theorem longest_passing_cell_per_row_witness:
  "scan_rows sample_table (select_columns sample_table None) (rows sample_table) []
     = Inr [''please send the money now'', ''please  send the money now'',
            ''call the bank now'', ''please send the money now'']
   \<and> (\<exists>recs. concat recs
         = [''please send the money now'', ''please  send the money now'',
            ''call the bank now'', ''please send the money now'']
       \<and> list_all2 (record_for (select_columns sample_table None)) (rows sample_table) recs)
   \<and> select_columns sample_table None = columns sample_table"
proof -
  have e: "scan_rows sample_table (select_columns sample_table None) (rows sample_table) []
     = Inr [''please send the money now'', ''please  send the money now'',
            ''call the bank now'', ''please send the money now'']"
    by code_simp
  then show ?thesis
    using longest_passing_cell_per_row [of sample_table None] by auto
qed

text \<open>
  C3. The column written (and, on a table with rows, returned) is the collected texts with
  every repetition after the first dropped: no text occurs twice in it, it has the same
  texts as the collection, in the order of their first occurrences, and it has at most
  one entry per row of the table.
\<close>

theorem output_deduplicated:
  "\<exists>all_texts out.
      scan_rows df (select_columns df text_columns) (rows df) [] = Inr all_texts
    \<and> saved (reduce_table df text_columns) = Some out
    \<and> (rows df \<noteq> [] \<longrightarrow> returned (reduce_table df text_columns) = Inr out)
    \<and> out = drop_duplicates all_texts
    \<and> distinct out
    \<and> set out = set all_texts
    \<and> sorted_wrt (\<lambda>a b. first_index all_texts a < first_index all_texts b) out
    \<and> length out \<le> length (rows df)"
proof -
  obtain recs where l: "list_all2 (record_for (select_columns df text_columns)) (rows df) recs"
    and s: "scan_rows df (select_columns df text_columns) (rows df) [] = Inr (concat recs)"
    and w: "saved (reduce_table df text_columns) = Some (drop_duplicates (concat recs))"
    and r: "returned (reduce_table df text_columns)
         = (if rows df = [] then Inl ZeroDivisionError
            else Inr (drop_duplicates (concat recs)))"
    using reduce_table_eq [of df text_columns] by blast
  let ?out = "drop_duplicates (concat recs)"
  have "distinct ?out"
    by (simp add: drop_duplicates_def distinct_drop_duplicates_seen)
  moreover have "set ?out = set (concat recs)"
    by (simp add: drop_duplicates_def set_drop_duplicates_seen)
  moreover have "sorted_wrt (\<lambda>a b. first_index (concat recs) a < first_index (concat recs) b) ?out"
    unfolding drop_duplicates_def by (rule order_drop_duplicates_seen)
  moreover have "length ?out \<le> length (rows df)"
    using length_drop_duplicates_seen [of "[]" "concat recs"] concat_records_length [OF l]
    by (simp add: drop_duplicates_def)
  moreover have "rows df \<noteq> [] \<longrightarrow> returned (reduce_table df text_columns) = Inr ?out"
    using r by simp
  ultimately show ?thesis using s w by blast
qed

theorem output_deduplicated_witness:
  "rows sample_table \<noteq> []
   \<and> returned (reduce_table sample_table None)
       = Inr [''please send the money now'', ''please  send the money now'',
              ''call the bank now'']
   \<and> distinct [''please send the money now'', ''please  send the money now'',
              ''call the bank now'']
   \<and> length [''please send the money now'', ''please  send the money now'',
              ''call the bank now''] \<le> length (rows sample_table)"
proof -
  have n: "rows sample_table \<noteq> []"
    by (simp add: sample_table_def)
  have e: "returned (reduce_table sample_table None)
       = Inr [''please send the money now'', ''please  send the money now'',
              ''call the bank now'']"
    by code_simp
  obtain out where
      "returned (reduce_table sample_table None) = Inr out"
      "distinct out" "length out \<le> length (rows sample_table)"
    using output_deduplicated [of sample_table None] n by blast
  with e n show ?thesis by simp
qed

text \<open>
  C4. A string shorter than \<open>min_length\<close> is rejected, whatever the other thresholds
  (normalising the whitespace never makes a text longer); so is \<open>"ok"\<close> under the
  defaults.
\<close>

theorem short_text_rejected:
  "(int (length s) < min_length \<longrightarrow>
      is_quality_english (Scalar (Text s)) min_words min_alpha_ratio min_length = Inr False)
   \<and> is_quality_english_default (Scalar (Text ''ok'')) = Inr False"
  using short_fails [of s min_length min_words min_alpha_ratio] short_fails [of "''ok''" 15 4 "1 / 2"]
  by (simp add: is_quality_english_default_def)

theorem short_text_rejected_witness:
  "int (length ''win a prize'') < 15
   \<and> is_quality_english (Scalar (Text ''win a prize'')) 4 (1 / 2) 15 = Inr False"
  using short_text_rejected [of "''win a prize''" 15 4 "1 / 2"] by simp

text \<open>
  C5. A string that contains five or more consecutive letters \<open>X\<close> is rejected, whatever
  surrounds the run and whatever the thresholds; so is \<open>"XXXXXXXXXX urgent call now"\<close>
  under the defaults.
\<close>

theorem placeholder_run_rejected:
  "(5 \<le> n \<longrightarrow>
      is_quality_english (Scalar (Text (pre @ replicate n CHR ''X'' @ post)))
        min_words min_alpha_ratio min_length = Inr False)
   \<and> is_quality_english_default (Scalar (Text ''XXXXXXXXXX urgent call now'')) = Inr False"
proof
  show "5 \<le> n \<longrightarrow>
      is_quality_english (Scalar (Text (pre @ replicate n CHR ''X'' @ post)))
        min_words min_alpha_ratio min_length = Inr False"
    using x_run_fails by blast
  have "is_quality_english (Scalar (Text ([] @ replicate 10 CHR ''X'' @ '' urgent call now'')))
      4 (1 / 2) 15 = Inr False"
    by (rule x_run_fails) simp
  moreover have "[] @ replicate 10 CHR ''X'' @ '' urgent call now'' = ''XXXXXXXXXX urgent call now''"
    by (simp add: numeral_eq_Suc)
  ultimately show "is_quality_english_default (Scalar (Text ''XXXXXXXXXX urgent call now'')) = Inr False"
    by (simp only: is_quality_english_default_def)
qed

theorem placeholder_run_rejected_witness:
  "(5::nat) \<le> 6
   \<and> is_quality_english (Scalar (Text (''please call the bank '' @ replicate 6 CHR ''X'' @ '' for your money'')))
        4 (1 / 2) 15 = Inr False"
  using placeholder_run_rejected [of 6 "''please call the bank ''" "'' for your money''" 4 "1 / 2" 15]
  by simp

text \<open>
  C6. When every name of the caller's list is a column of the table, exactly the listed
  columns are scanned, in the caller's order; when the list is absent, or some name of it
  is not a column, all columns of the table are scanned, and the run is that of a call
  with no list.
\<close>

theorem column_selection:
  "(set cols \<subseteq> set (columns df) \<longrightarrow>
      select_columns df (Some cols) = cols
      \<and> (\<exists>recs. list_all2 (record_for cols) (rows df) recs
            \<and> saved (reduce_table df (Some cols)) = Some (drop_duplicates (concat recs))))
   \<and> (\<not> set cols \<subseteq> set (columns df) \<longrightarrow>
      select_columns df (Some cols) = columns df
      \<and> reduce_table df (Some cols) = reduce_table df None)
   \<and> select_columns df None = columns df
   \<and> (\<exists>recs. list_all2 (record_for (columns df)) (rows df) recs
            \<and> saved (reduce_table df None) = Some (drop_duplicates (concat recs)))"
proof -
  have a: "set cols \<subseteq> set (columns df) \<longrightarrow>
      select_columns df (Some cols) = cols
      \<and> (\<exists>recs. list_all2 (record_for cols) (rows df) recs
            \<and> saved (reduce_table df (Some cols)) = Some (drop_duplicates (concat recs)))"
    using reduce_table_eq [of df "Some cols"] by (auto simp: select_columns_some)
  have b: "\<not> set cols \<subseteq> set (columns df) \<longrightarrow>
      select_columns df (Some cols) = columns df
      \<and> reduce_table df (Some cols) = reduce_table df None"
    using reduce_table_fallback [of cols df] by (simp add: select_columns_some)
  have c: "\<exists>recs. list_all2 (record_for (columns df)) (rows df) recs
            \<and> saved (reduce_table df None) = Some (drop_duplicates (concat recs))"
    using reduce_table_eq [of df None] by (auto simp: select_columns_none)
  show ?thesis using a b c by (simp add: select_columns_none)
qed

theorem column_selection_witness:
  "set [''sms''] \<subseteq> set (columns sample_table)
   \<and> select_columns sample_table (Some [''sms'']) = [''sms'']
   \<and> saved (reduce_table sample_table (Some [''sms'']))
       = Some [''call the bank now'', ''please  send the money now'']
   \<and> \<not> set [''sms'', ''body''] \<subseteq> set (columns sample_table)
   \<and> select_columns sample_table (Some [''sms'', ''body'']) = columns sample_table
   \<and> reduce_table sample_table (Some [''sms'', ''body'']) = reduce_table sample_table None
   \<and> saved (reduce_table sample_table None)
       = Some [''please send the money now'', ''please  send the money now'',
               ''call the bank now'']"
proof -
  have h1: "set [''sms''] \<subseteq> set (columns sample_table)"
    by (simp add: sample_table_def)
  have h2: "\<not> set [''sms'', ''body''] \<subseteq> set (columns sample_table)"
    by (simp add: sample_table_def)
  have e1: "saved (reduce_table sample_table (Some [''sms'']))
       = Some [''call the bank now'', ''please  send the money now'']"
    by code_simp
  have e2: "saved (reduce_table sample_table None)
       = Some [''please send the money now'', ''please  send the money now'',
               ''call the bank now'']"
    by code_simp
  have "select_columns sample_table (Some [''sms'']) = [''sms'']"
    using column_selection [of "[''sms'']" sample_table] h1 by blast
  moreover have "select_columns sample_table (Some [''sms'', ''body'']) = columns sample_table
      \<and> reduce_table sample_table (Some [''sms'', ''body'']) = reduce_table sample_table None"
    using column_selection [of "[''sms'', ''body'']" sample_table] h2 by blast
  ultimately show ?thesis using h1 h2 e1 e2 by blast
qed

text \<open>
  C7. Loading tries the default parse, then the Latin-1 parse, then the lenient parse, in
  that order, and stops at the first that succeeds: every attempt before the last one
  made has failed, and the outcome is that of the last one made. Loading fails only when
  all three attempts were made and failed, with the exception of the third; that
  exception is what the caller gets, and nothing is written.
\<close>

theorem load_source_chain:
  assumes "load_source read_csv input_file = (tried, res)"
  shows "tried \<in> {[DefaultParse], [DefaultParse, Latin1Parse],
                  [DefaultParse, Latin1Parse, LenientParse]}
       \<and> res = read_csv (last tried) input_file
       \<and> (\<forall>st \<in> set (butlast tried). isl (read_csv st input_file))
       \<and> (isl res \<longrightarrow> tried = [DefaultParse, Latin1Parse, LenientParse])
       \<and> (\<forall>e. res = Inl e \<longrightarrow>
             extract_quality_english_text read_csv input_file text_columns
               = \<lparr>saved = None, returned = Inl e\<rparr>)
       \<and> (\<forall>df. res = Inr df \<longrightarrow>
             extract_quality_english_text read_csv input_file text_columns
               = reduce_table df text_columns)"
proof -
  have x: "snd (load_source read_csv input_file) = res"
    using assms by simp
  have "tried \<in> {[DefaultParse], [DefaultParse, Latin1Parse],
                  [DefaultParse, Latin1Parse, LenientParse]}
       \<and> res = read_csv (last tried) input_file
       \<and> (\<forall>st \<in> set (butlast tried). isl (read_csv st input_file))
       \<and> (isl res \<longrightarrow> tried = [DefaultParse, Latin1Parse, LenientParse])"
    using assms unfolding load_source_cases by (auto split: if_splits)
  moreover have "\<forall>e. res = Inl e \<longrightarrow>
             extract_quality_english_text read_csv input_file text_columns
               = \<lparr>saved = None, returned = Inl e\<rparr>"
    using x by (simp add: extract_quality_english_text_def)
  moreover have "\<forall>df. res = Inr df \<longrightarrow>
             extract_quality_english_text read_csv input_file text_columns
               = reduce_table df text_columns"
    using x by (simp add: extract_quality_english_text_def)
  ultimately show ?thesis by blast
qed

theorem load_source_chain_witness:
  "load_source sample_read_csv ''data.csv''
     = ([DefaultParse, Latin1Parse, LenientParse], Inr sample_table)
   \<and> isl (sample_read_csv DefaultParse ''data.csv'')
   \<and> isl (sample_read_csv Latin1Parse ''data.csv'')
   \<and> extract_quality_english_text sample_read_csv ''data.csv'' None
       = reduce_table sample_table None
   \<and> load_source sample_read_csv ''missing.csv''
       = ([DefaultParse, Latin1Parse, LenientParse], Inl (ReadError ''no such file''))
   \<and> extract_quality_english_text sample_read_csv ''missing.csv'' None
       = \<lparr>saved = None, returned = Inl (ReadError ''no such file'')\<rparr>"
proof -
  have a: "load_source sample_read_csv ''data.csv''
     = ([DefaultParse, Latin1Parse, LenientParse], Inr sample_table)"
    by (simp add: load_source_def sample_read_csv_def)
  have b: "load_source sample_read_csv ''missing.csv''
       = ([DefaultParse, Latin1Parse, LenientParse], Inl (ReadError ''no such file''))"
    by (simp add: load_source_def sample_read_csv_def)
  show ?thesis
    using load_source_chain [OF a, of None] load_source_chain [OF b, of None] a b
    by simp
qed

text \<open>
  C8. When the source loads as a table with no rows, the scan collects nothing, an empty
  column is written, and the retention report then divides by the row count zero: the
  call ends in ZeroDivisionError instead of returning.
\<close>

theorem empty_source_division_by_zero:
  assumes "snd (load_source read_csv input_file) = Inr df" and "rows df = []"
  shows "true_div 0 (length (rows df)) = Inl ZeroDivisionError
       \<and> extract_quality_english_text read_csv input_file text_columns
           = \<lparr>saved = Some [], returned = Inl ZeroDivisionError\<rparr>"
  using assms
  by (simp add: extract_quality_english_text_def reduce_table_def drop_duplicates_def
      true_div_def)

theorem empty_source_division_by_zero_witness:
  "snd (load_source sample_read_csv ''empty.csv'') = Inr header_only
   \<and> rows header_only = []
   \<and> extract_quality_english_text sample_read_csv ''empty.csv'' None
       = \<lparr>saved = Some [], returned = Inl ZeroDivisionError\<rparr>"
proof -
  have a: "snd (load_source sample_read_csv ''empty.csv'') = Inr header_only"
    by (simp add: load_source_def sample_read_csv_def)
  have b: "rows header_only = []"
    by (simp add: header_only_def)
  show ?thesis
    using empty_source_division_by_zero [OF a b, of None] a b by simp
qed

text \<open>
  C9. The classifier is to answer a boolean on every value and never to raise; its guard
  on line 14 answers False on a value that is not a string. On the list \<open>[1, 2]\<close> it does
  not get there: \<open>pd.isna\<close>, called first, answers an array of two entries, and taking the
  truth value of that array raises ValueError. The same happens on the list whose only
  element is the list \<open>[1, 2]\<close>, which NumPy reads as an array of two entries.
\<close>

theorem classifier_raises_on_list:
  "is_quality_english_default (PyList [Scalar (Number ''1''), Scalar (Number ''2'')])
     = Inl ValueError
   \<and> is_quality_english_default
       (PyList [PyList [Scalar (Number ''1''), Scalar (Number ''2'')]]) = Inl ValueError"
  by code_simp

text \<open>
  C10. Every entry of the written column is the coerced text of a passing cell of some
  row, as it stands in the table and not normalised, and what a row adds is in the
  column as it was added. So texts that differ only in their whitespace stay apart: in
  the sample table the rows with \<open>please send the money now\<close> and with the same words
  after a double space both reach the output, although the classifier normalises both to
  the same text.
\<close>

theorem output_is_coerced_text:
  "(\<exists>out. saved (reduce_table df text_columns) = Some out
      \<and> (\<forall>t \<in> set out. \<exists>row \<in> set (rows df). \<exists>col \<in> set (select_columns df text_columns).
            t = coerce_cell (row col) \<and> passes t)
      \<and> (\<forall>row \<in> set (rows df). \<exists>added.
            record_for (select_columns df text_columns) row added \<and> set added \<subseteq> set out))
   \<and> clean ''please send the money now'' = clean ''please  send the money now''
   \<and> saved (reduce_table sample_table None)
       = Some [''please send the money now'', ''please  send the money now'',
               ''call the bank now'']"
proof -
  obtain recs where l: "list_all2 (record_for (select_columns df text_columns)) (rows df) recs"
    and w: "saved (reduce_table df text_columns) = Some (drop_duplicates (concat recs))"
    using reduce_table_eq [of df text_columns] by blast
  have s: "set (drop_duplicates (concat recs)) = set (concat recs)"
    by (simp add: drop_duplicates_def set_drop_duplicates_seen)
  have "\<forall>t \<in> set (drop_duplicates (concat recs)).
      \<exists>row \<in> set (rows df). \<exists>col \<in> set (select_columns df text_columns).
        t = coerce_cell (row col) \<and> passes t"
    using records_origin [OF l] unfolding s by blast
  moreover have "\<forall>row \<in> set (rows df). \<exists>added.
      record_for (select_columns df text_columns) row added
      \<and> set added \<subseteq> set (drop_duplicates (concat recs))"
    using records_kept [OF l] unfolding s by blast
  moreover have "clean ''please send the money now'' = clean ''please  send the money now''"
    by code_simp
  moreover have "saved (reduce_table sample_table None)
       = Some [''please send the money now'', ''please  send the money now'',
               ''call the bank now'']"
    by code_simp
  ultimately show ?thesis using w by blast
qed

theorem output_is_coerced_text_witness:
  "saved (reduce_table sample_table None)
     = Some [''please send the money now'', ''please  send the money now'',
             ''call the bank now'']
   \<and> (\<exists>row \<in> set (rows sample_table). \<exists>col \<in> set (select_columns sample_table None).
         ''please  send the money now'' = coerce_cell (row col)
         \<and> passes ''please  send the money now'')"
proof -
  obtain out where o: "saved (reduce_table sample_table None) = Some out"
    and a: "\<forall>t \<in> set out. \<exists>row \<in> set (rows sample_table).
              \<exists>col \<in> set (select_columns sample_table None).
                t = coerce_cell (row col) \<and> passes t"
    and e: "saved (reduce_table sample_table None)
       = Some [''please send the money now'', ''please  send the money now'',
               ''call the bank now'']"
    using output_is_coerced_text [of sample_table None] by blast
  have "''please  send the money now'' \<in> set out"
    using o e by auto
  with a e show ?thesis by blast
qed

end
